theory Spec2Isabelle
  imports Main
begin

section \<open>Values, map objects and the heap\<close>

text \<open>
  The package \<^verbatim>\<open>ecsevent\<close> keeps fields and events in Go maps
  \<^verbatim>\<open>map[string]interface{}\<close>. A Go map is a reference to a mutable object, and
  \<^verbatim>\<open>SpanMonitor\<close> both mutates such objects in place (\<^verbatim>\<open>sm.fields[k] = v\<close>) and
  hands references to them around (\<^verbatim>\<open>Fields\<close> returns \<^verbatim>\<open>sm.fields\<close> itself, the
  buffer holds the \<^verbatim>\<open>merged\<close> maps, \<^verbatim>\<open>Finish\<close> passes \<^verbatim>\<open>sm.fields\<close> to the parent).
  The model therefore has an explicit heap of map objects: a map value is an address,
  its content is what the heap holds at that address.

  A value of type \<^verbatim>\<open>interface{}\<close> is either whatever the caller stored (an opaque
  \<open>Atom\<close>) or the one kind of value that \<^verbatim>\<open>SpanMonitor\<close> creates itself: the buffer
  slice \<^verbatim>\<open>[]map[string]interface{}\<close> that \<^verbatim>\<open>Finish\<close> stores under the sub-events
  key. The slice is modelled by the list of the map references it holds; the code only
  ever appends to it, so no element of an existing slice value is overwritten.
\<close>

type_synonym addr = nat

datatype 'a val = Atom 'a | Slice "addr list"

type_synonym 'a fmap = "string \<rightharpoonup> 'a val"

record 'a heap =
  cells :: "addr \<Rightarrow> 'a fmap"
  next_free :: addr

text \<open>\<^verbatim>\<open>make(map[string]interface{})\<close>: a new, empty map object at an unused address.\<close>

definition make_map :: "'a heap \<Rightarrow> addr \<times> 'a heap" where
  "make_map h =
     (next_free h,
      h\<lparr>cells := (cells h)(next_free h := Map.empty), next_free := Suc (next_free h)\<rparr>)"

text \<open>
  \<^verbatim>\<open>for k, v := range src { dst[k] = v }\<close>, where \<open>src\<close> is the content read from the
  source map and \<open>dst\<close> the address of the map written to. Go visits the keys of a map
  in an unspecified order; every key occurs once, so the outcome is the same in each
  order (lemma \<open>assign_all_map_add\<close> below): the destination overridden by the source.
\<close>

definition copy_into :: "'a fmap \<Rightarrow> addr \<Rightarrow> 'a heap \<Rightarrow> 'a heap" where
  "copy_into src dst h = h\<lparr>cells := (cells h)(dst := cells h dst ++ src)\<rparr>"

text \<open>The same loop, entry by entry, in the order \<open>kvs\<close> in which the runtime visits them.\<close>

fun assign_all :: "(string \<times> 'a val) list \<Rightarrow> 'a fmap \<Rightarrow> 'a fmap" where
  "assign_all [] m = m"
| "assign_all ((k, v) # kvs) m = assign_all kvs (m(k \<mapsto> v))"

section \<open>The monitor\<close>

text \<open>
  The interface \<^verbatim>\<open>Monitor\<close>, as far as \<^verbatim>\<open>Root\<close> tells its values apart: the nil
  interface, a \<^verbatim>\<open>*RootMonitor\<close>, a \<^verbatim>\<open>*SpanMonitor\<close> (either pointer may itself be nil
  inside a non-nil interface value: \<open>None\<close>), or some other implementation.
\<close>

datatype Monitor =
    NilMonitor
  | RootMonitorPtr "addr option"
  | SpanMonitorPtr "addr option"
  | OtherMonitor nat

text \<open>An \<^verbatim>\<open>opentracing.Span\<close> is an external handle; \<open>None\<close> is the nil interface.\<close>

type_synonym Span = nat

datatype LogRecord = LogRecord

record SpanMonitor =
  SubeventsField :: string
  subevents :: "addr list"
  sm_fields :: "addr option"
  span :: "Span option"
  parent :: Monitor
  suppressed :: bool

text \<open>
  The lock \<^verbatim>\<open>mu\<close> is left out: the model runs one operation at a time, to completion,
  and the constructor allocates the lock of every monitor it builds.
\<close>

type_synonym 'a state = "SpanMonitor \<times> 'a heap"

text \<open>
  The calls a monitor makes on other objects:
  \<^item> \<^verbatim>\<open>sm.parent.Record(sm.fields)\<close>, with the receiver, the map reference passed and the
    heap as it is at the moment of the call: what the parent receives is the content of
    that map, and of the maps it refers to, at that moment;
  \<^item> \<^verbatim>\<open>sm.span.FinishWithOptions(opts)\<close>, with the span and \<^verbatim>\<open>opts.LogRecords\<close>;
  \<^item> \<^verbatim>\<open>sm.Parent()\<close> called by \<^verbatim>\<open>Root\<close> on a span monitor up the chain, with the
    address of that span monitor.
\<close>

datatype 'a call =
    ParentRecord Monitor "addr option" "'a heap"
  | FinishWithOptions Span "LogRecord list"
  | GetParent addr

datatype error = NilMapAssignment | NilPointerDereference

text \<open>
  Modelled from the spec: the constant \<^verbatim>\<open>FieldEventSubevents\<close> is declared elsewhere in
  the package; the spec names the default sub-events key \<^verbatim>\<open>"subevents"\<close>.
\<close>

definition FieldEventSubevents :: string where
  "FieldEventSubevents = ''subevents''"

definition WithOpenTracingSpan :: "Span option \<Rightarrow> 'a state \<Rightarrow> 'a state" where
  "WithOpenTracingSpan sp = (\<lambda>(sm, h). (sm\<lparr>span := sp\<rparr>, h))"

definition NewSpanMonitorFromParent ::
  "Monitor \<Rightarrow> ('a state \<Rightarrow> 'a state) list \<Rightarrow> 'a heap \<Rightarrow> 'a state" where
  "NewSpanMonitorFromParent m opts h =
     (let (a, h1) = make_map h;
          monitor = \<lparr>SubeventsField = FieldEventSubevents, subevents = [], sm_fields = Some a,
                     span = None, parent = m, suppressed = False\<rparr>
      in fold (\<lambda>opt s. opt s) opts (monitor, h1))"

definition Fields :: "SpanMonitor \<Rightarrow> addr option" where
  "Fields sm = sm_fields sm"

definition Parent :: "SpanMonitor \<Rightarrow> Monitor" where
  "Parent sm = parent sm"

text \<open>What a map reference holds; ranging over or reading a nil map finds no entry.\<close>

definition content :: "'a heap \<Rightarrow> addr option \<Rightarrow> 'a fmap" where
  "content h r = (case r of None \<Rightarrow> Map.empty | Some a \<Rightarrow> cells h a)"

definition maxDepth :: nat where
  "maxDepth = 100"

text \<open>
  The loop of \<^verbatim>\<open>Root\<close>, with \<open>mons\<close> the span monitors that the pointers lead to. The
  counter \<open>depth\<close> only grows and the loop leaves once it passes \<open>maxDepth\<close>.
\<close>

function Root_loop :: "(addr \<Rightarrow> SpanMonitor) \<Rightarrow> Monitor \<Rightarrow> nat \<Rightarrow> addr option" where
  "Root_loop mons monitor depth =
     (if monitor = NilMonitor then None
      else if Suc depth > maxDepth then None
      else (case monitor of
              RootMonitorPtr (Some gm) \<Rightarrow> Some gm
            | SpanMonitorPtr (Some sm) \<Rightarrow> Root_loop mons (Parent (mons sm)) (Suc depth)
            | _ \<Rightarrow> None))"
  by pat_completeness auto
termination
  by (relation "measure (\<lambda>(mons, monitor, depth). Suc maxDepth - depth)") auto

declare Root_loop.simps [simp del]

definition Root :: "(addr \<Rightarrow> SpanMonitor) \<Rightarrow> SpanMonitor \<Rightarrow> addr option" where
  "Root mons sm = Root_loop mons (Parent sm) 0"

text \<open>
  The same loop, listing the calls it makes on other monitors: in its second branch it
  calls \<^verbatim>\<open>sm.Parent()\<close> on the span monitor it has reached. (The first
  \<^verbatim>\<open>sm.Parent()\<close>, before the loop, is a call on the monitor itself.)
\<close>

function Root_calls :: "(addr \<Rightarrow> SpanMonitor) \<Rightarrow> Monitor \<Rightarrow> nat \<Rightarrow> 'a call list" where
  "Root_calls mons monitor depth =
     (if monitor = NilMonitor then []
      else if Suc depth > maxDepth then []
      else (case monitor of
              RootMonitorPtr (Some gm) \<Rightarrow> []
            | SpanMonitorPtr (Some sm) \<Rightarrow>
                GetParent sm # Root_calls mons (Parent (mons sm)) (Suc depth)
            | _ \<Rightarrow> []))"
  by pat_completeness auto
termination
  by (relation "measure (\<lambda>(mons, monitor, depth). Suc maxDepth - depth)") auto

declare Root_calls.simps [simp del]

text \<open>\<^verbatim>\<open>if sm.fields == nil { sm.fields = make(map[string]interface{}) }\<close>, giving the
  address of the field map that the monitor has afterwards.\<close>

definition ensure_fields :: "'a state \<Rightarrow> addr \<times> 'a state" where
  "ensure_fields s =
     (case sm_fields (fst s) of
        Some a \<Rightarrow> (a, s)
      | None \<Rightarrow> (let (a, h1) = make_map (snd s) in (a, ((fst s)\<lparr>sm_fields := Some a\<rparr>, h1))))"

definition UpdateFields :: "'a fmap \<Rightarrow> 'a state \<Rightarrow> 'a state" where
  "UpdateFields new s =
     (let (a, (sm, h)) = ensure_fields s
      in (sm, copy_into new a h))"

definition Suppress :: "'a state \<Rightarrow> 'a state" where
  "Suppress s = ((fst s)\<lparr>suppressed := True\<rparr>, snd s)"

definition Record :: "'a fmap \<Rightarrow> 'a state \<Rightarrow> 'a state" where
  "Record event s =
     (let (a, (sm, h)) = ensure_fields s;
          (merged, h1) = make_map h;
          h2 = copy_into (cells h1 a) merged h1;
          h3 = copy_into event merged h2;
          sm1 = sm\<lparr>subevents := subevents sm @ [merged]\<rparr>
      in if suppressed sm1 then (sm1, h3) else (sm1, h3))"

text \<open>
  The last statement of \<^verbatim>\<open>Finish\<close>, \<^verbatim>\<open>sm.parent.Record(sm.fields)\<close>. Calling a method
  of a nil interface panics before any call is made. If the parent is a nil
  \<^verbatim>\<open>*SpanMonitor\<close> the call is made and \<^verbatim>\<open>Record\<close> panics at once, reading
  \<^verbatim>\<open>sm.fields\<close> of its nil receiver; the panic passes through \<^verbatim>\<open>Finish\<close>. On any other
  receiver the call is taken to return (\<^verbatim>\<open>Record\<close> of a span monitor does; the code of
  the other implementations is not part of this file).
\<close>

definition forward ::
  "'a state \<Rightarrow> 'a call list \<Rightarrow> (error \<times> 'a call list) + ('a state \<times> 'a call list)" where
  "forward s tr =
     (if parent (fst s) = NilMonitor then Inl (NilPointerDereference, tr)
      else if parent (fst s) = SpanMonitorPtr None
      then Inl (NilPointerDereference,
                tr @ [ParentRecord (parent (fst s)) (sm_fields (fst s)) (snd s)])
      else Inr (s, tr @ [ParentRecord (parent (fst s)) (sm_fields (fst s)) (snd s)]))"

text \<open>
  \<^verbatim>\<open>if sm.span != nil { ... sm.span.FinishWithOptions(opts) }\<close>: the log records are
  the empty slice that \<^verbatim>\<open>make\<close> returned, nothing is added to it.
\<close>

definition finish_span :: "SpanMonitor \<Rightarrow> 'a call list" where
  "finish_span sm = (case span sm of None \<Rightarrow> [] | Some sp \<Rightarrow> [FinishWithOptions sp []])"

text \<open>
  \<^verbatim>\<open>Finish\<close> returns the state it leaves and the calls it made, or the panic and the
  calls made before it. Assigning to an entry of a nil map panics. The span's
  \<^verbatim>\<open>FinishWithOptions\<close> is taken to return.
\<close>

definition Finish ::
  "'a state \<Rightarrow> (error \<times> 'a call list) + ('a state \<times> 'a call list)" where
  "Finish s =
     (let (sm, h) = s in
      if suppressed sm then Inr (s, [])
      else
        let tr = finish_span sm
        in if length (subevents sm) > 0
           then (case sm_fields sm of
                   None \<Rightarrow> Inl (NilMapAssignment, tr)
                 | Some a \<Rightarrow>
                     forward
                       (sm, h\<lparr>cells := (cells h)
                                (a := (cells h a)(SubeventsField sm \<mapsto> Slice (subevents sm)))\<rparr>)
                       tr)
           else forward s tr)"

section \<open>Lifecycles\<close>

text \<open>
  The operations of a span monitor. Each gives the state it leaves, the calls by which
  it handed something to a collaborator (only \<^verbatim>\<open>Finish\<close> has any), and what it returns
  to its caller; with the result of \<^verbatim>\<open>Root\<close> come the getter calls that \<^verbatim>\<open>Root\<close> made
  up the chain.
\<close>

datatype 'a op =
    OpUpdateFields "'a fmap"
  | OpRecord "'a fmap"
  | OpSuppress
  | OpFields
  | OpParent
  | OpRoot
  | OpFinish

datatype 'a ret =
    RetNothing
  | RetFields "addr option"
  | RetMonitor Monitor
  | RetRoot "addr option" "'a call list"

fun ret_calls :: "'a ret \<Rightarrow> 'a call list" where
  "ret_calls (RetRoot r cs) = cs"
| "ret_calls r = []"

fun exec ::
  "(addr \<Rightarrow> SpanMonitor) \<Rightarrow> 'a op \<Rightarrow> 'a state \<Rightarrow>
     (error \<times> 'a call list) + ('a state \<times> 'a call list \<times> 'a ret)" where
  "exec mons (OpUpdateFields new) s = Inr (UpdateFields new s, [], RetNothing)"
| "exec mons (OpRecord event) s = Inr (Record event s, [], RetNothing)"
| "exec mons OpSuppress s = Inr (Suppress s, [], RetNothing)"
| "exec mons OpFields s = Inr (s, [], RetFields (Fields (fst s)))"
| "exec mons OpParent s = Inr (s, [], RetMonitor (Parent (fst s)))"
| "exec mons OpRoot s =
     Inr (s, [], RetRoot (Root mons (fst s)) (Root_calls mons (Parent (fst s)) 0))"
| "exec mons OpFinish s =
     (case Finish s of Inl e \<Rightarrow> Inl e | Inr (s1, tr) \<Rightarrow> Inr (s1, tr, RetNothing))"

text \<open>A sequence of operations on one monitor; a panic ends it.\<close>

fun run ::
  "(addr \<Rightarrow> SpanMonitor) \<Rightarrow> 'a op list \<Rightarrow> 'a state \<Rightarrow>
     (error \<times> 'a call list) + ('a state \<times> 'a call list)" where
  "run mons [] s = Inr (s, [])"
| "run mons (x # xs) s =
     (case exec mons x s of
        Inl e \<Rightarrow> Inl e
      | Inr (s1, tr1, r) \<Rightarrow>
          (case run mons xs s1 of
             Inl (e, tr2) \<Rightarrow> Inl (e, tr1 @ tr2)
           | Inr (s2, tr2) \<Rightarrow> Inr (s2, tr1 @ tr2)))"

section \<open>Notions used to state the properties\<close>

text \<open>
  The states that the constructor and the operations produce: the field map and the
  buffered maps are allocated objects, the field map is not one of the buffered maps
  (\<open>Record\<close> makes a new map each time), and the buffer is empty as long as the field
  map is nil. Lemmas \<open>well_formed_New\<close> and \<open>well_formed_run\<close> show that every state
  reached from the constructor is of this kind.
\<close>

definition well_formed :: "'a state \<Rightarrow> bool" where
  "well_formed s =
     ((case sm_fields (fst s) of
         None \<Rightarrow> subevents (fst s) = []
       | Some a \<Rightarrow> a < next_free (snd s) \<and> a \<notin> set (subevents (fst s)))
      \<and> list_all (\<lambda>b. b < next_free (snd s)) (subevents (fst s)))"

text \<open>
  What the spec expects the buffer to gain over a sequence of operations, in order: one
  entry for each \<open>Record\<close>, the field set of that moment overridden by the event.
\<close>

fun recorded_in_order :: "'a op list \<Rightarrow> 'a fmap \<Rightarrow> 'a fmap list" where
  "recorded_in_order [] F = []"
| "recorded_in_order (OpRecord E # xs) F = (F ++ E) # recorded_in_order xs F"
| "recorded_in_order (OpUpdateFields G # xs) F = recorded_in_order xs (F ++ G)"
| "recorded_in_order (x # xs) F = recorded_in_order xs F"

fun is_ParentRecord :: "'a call \<Rightarrow> bool" where
  "is_ParentRecord (ParentRecord p r h) = True"
| "is_ParentRecord c = False"

text \<open>The calls made over a lifecycle, whether it ended normally or in a panic.\<close>

definition calls_of ::
  "(error \<times> 'a call list) + ('a state \<times> 'a call list) \<Rightarrow> 'a call list" where
  "calls_of res = (case res of Inl (e, tr) \<Rightarrow> tr | Inr (s, tr) \<Rightarrow> tr)"

text \<open>
  The parent chain as the spec describes it: \<open>ancestor mons m n\<close> is the monitor reached
  from \<open>m\<close> by following \<open>n\<close> parent links of span monitors; the chain ends (with the
  nil monitor) after anything that is not a span monitor.
\<close>

fun is_span :: "Monitor \<Rightarrow> bool" where
  "is_span (SpanMonitorPtr (Some p)) = True"
| "is_span m = False"

fun is_root :: "Monitor \<Rightarrow> bool" where
  "is_root (RootMonitorPtr (Some g)) = True"
| "is_root m = False"

fun ancestor :: "(addr \<Rightarrow> SpanMonitor) \<Rightarrow> Monitor \<Rightarrow> nat \<Rightarrow> Monitor" where
  "ancestor mons m 0 = m"
| "ancestor mons m (Suc n) =
     (case m of
        SpanMonitorPtr (Some p) \<Rightarrow> ancestor mons (Parent (mons p)) n
      | _ \<Rightarrow> NilMonitor)"

section \<open>Some concrete monitors\<close>

definition heap0 :: "nat heap" where
  "heap0 = \<lparr>cells = (\<lambda>a. Map.empty), next_free = 0\<rparr>"

definition monitor0 :: "nat state" where
  "monitor0 = NewSpanMonitorFromParent (RootMonitorPtr (Some 0)) [] heap0"

definition monitor1 :: "nat state" where
  "monitor1 = UpdateFields [''user'' \<mapsto> Atom 0] monitor0"

definition monitor2 :: "nat state" where
  "monitor2 = Record [''step'' \<mapsto> Atom 1] (UpdateFields [''subevents'' \<mapsto> Atom 9] monitor0)"

definition no_monitors :: "addr \<Rightarrow> SpanMonitor" where
  "no_monitors = (\<lambda>p. \<lparr>SubeventsField = [], subevents = [], sm_fields = None, span = None,
                        parent = NilMonitor, suppressed = False\<rparr>)"

definition span_with_parent :: "Monitor \<Rightarrow> SpanMonitor" where
  "span_with_parent m =
     \<lparr>SubeventsField = FieldEventSubevents, subevents = [], sm_fields = None, span = None,
      parent = m, suppressed = False\<rparr>"

text \<open>Span monitor \<open>p\<close> has span monitor \<open>p - 1\<close> as parent, span monitor \<open>0\<close> a root.\<close>

definition chain_mons :: "addr \<Rightarrow> SpanMonitor" where
  "chain_mons p =
     span_with_parent (if p = 0 then RootMonitorPtr (Some 7) else SpanMonitorPtr (Some (p - 1)))"

text \<open>Every span monitor is its own parent.\<close>

definition loop_mons :: "addr \<Rightarrow> SpanMonitor" where
  "loop_mons p = span_with_parent (SpanMonitorPtr (Some p))"

section \<open>The copy loop\<close>

lemma assign_all_map_add:
  "distinct (map fst kvs) \<Longrightarrow> assign_all kvs m = m ++ map_of kvs"
proof (induction kvs arbitrary: m)
  case Nil
  then show ?case by simp
next
  case (Cons kv kvs)
  obtain k v where kv: "kv = (k, v)" by (cases kv)
  from Cons.prems kv have d: "distinct (map fst kvs)" and k: "k \<notin> fst ` set kvs"
    by auto
  from k have "map_of kvs k = None"
    by (simp add: map_of_eq_None_iff)
  then have swap: "m(k \<mapsto> v) ++ map_of kvs = (m ++ map_of kvs)(k \<mapsto> v)"
    by (auto simp: map_add_def fun_eq_iff split: option.splits)
  have "assign_all (kv # kvs) m = assign_all kvs (m(k \<mapsto> v))"
    by (simp add: kv)
  also have "\<dots> = m(k \<mapsto> v) ++ map_of kvs"
    by (rule Cons.IH [OF d])
  also have "\<dots> = (m ++ map_of kvs)(k \<mapsto> v)"
    by (rule swap)
  also have "\<dots> = m ++ map_of (kv # kvs)"
    by (simp add: kv)
  finally show ?case .
qed

section \<open>The operations, case by case\<close>

lemma UpdateFields_Some:
  "sm_fields sm = Some a \<Longrightarrow>
     UpdateFields G (sm, h) = (sm, h\<lparr>cells := (cells h)(a := cells h a ++ G)\<rparr>)"
  by (simp add: UpdateFields_def ensure_fields_def copy_into_def)

lemma UpdateFields_None:
  "sm_fields sm = None \<Longrightarrow>
     UpdateFields G (sm, h) =
       (sm\<lparr>sm_fields := Some (next_free h)\<rparr>,
        h\<lparr>cells := (cells h)(next_free h := G), next_free := Suc (next_free h)\<rparr>)"
  by (simp add: UpdateFields_def ensure_fields_def copy_into_def make_map_def)

lemma Record_Some:
  "sm_fields sm = Some a \<Longrightarrow> a < next_free h \<Longrightarrow>
     Record E (sm, h) =
       (sm\<lparr>subevents := subevents sm @ [next_free h]\<rparr>,
        h\<lparr>cells := (cells h)(next_free h := cells h a ++ E), next_free := Suc (next_free h)\<rparr>)"
  by (simp add: Record_def ensure_fields_def copy_into_def make_map_def)

lemma Record_None:
  "sm_fields sm = None \<Longrightarrow>
     Record E (sm, h) =
       (sm\<lparr>sm_fields := Some (next_free h), subevents := subevents sm @ [Suc (next_free h)]\<rparr>,
        h\<lparr>cells := (cells h)(next_free h := Map.empty, Suc (next_free h) := E),
          next_free := Suc (Suc (next_free h))\<rparr>)"
  by (simp add: Record_def ensure_fields_def copy_into_def make_map_def)

lemma Finish_suppressed: "suppressed (fst s) \<Longrightarrow> Finish s = Inr (s, [])"
  by (cases s) (simp add: Finish_def)

lemma Finish_empty_buffer:
  "\<not> suppressed sm \<Longrightarrow> subevents sm = [] \<Longrightarrow>
     Finish (sm, h) = forward (sm, h) (finish_span sm)"
  by (simp add: Finish_def)

lemma Finish_buffered:
  "\<not> suppressed sm \<Longrightarrow> subevents sm \<noteq> [] \<Longrightarrow> sm_fields sm = Some a \<Longrightarrow>
     Finish (sm, h) =
       forward
         (sm, h\<lparr>cells := (cells h)
                  (a := (cells h a)(SubeventsField sm \<mapsto> Slice (subevents sm)))\<rparr>)
         (finish_span sm)"
  by (simp add: Finish_def)

lemma Finish_cases:
  "Finish (sm, h) = Inr (s1, tr) \<Longrightarrow>
     s1 = (sm, h) \<or>
     (\<exists>a. sm_fields sm = Some a \<and>
        s1 = (sm, h\<lparr>cells := (cells h)(a := (cells h a)(SubeventsField sm \<mapsto> Slice (subevents sm)))\<rparr>))"
  by (auto simp: Finish_def forward_def Let_def split: if_splits option.splits)

lemma fold_WithOpenTracingSpan:
  "fold (\<lambda>opt s. opt s) (map WithOpenTracingSpan sps) (sm, h) =
     (sm\<lparr>span := (if sps = [] then span sm else last sps)\<rparr>, h)"
  by (induction sps arbitrary: sm) (auto simp: WithOpenTracingSpan_def)

lemma run_append:
  "run mons (xs @ ys) s =
     (case run mons xs s of
        Inl e \<Rightarrow> Inl e
      | Inr (s1, tr1) \<Rightarrow>
          (case run mons ys s1 of
             Inl (e, tr2) \<Rightarrow> Inl (e, tr1 @ tr2)
           | Inr (s2, tr2) \<Rightarrow> Inr (s2, tr1 @ tr2)))"
  by (induction xs arbitrary: s) (auto split: sum.splits)

section \<open>Reachable states are well formed\<close>

lemma well_formed_New:
  "well_formed (NewSpanMonitorFromParent m (map WithOpenTracingSpan sps) h)"
  by (simp add: NewSpanMonitorFromParent_def make_map_def fold_WithOpenTracingSpan well_formed_def)

lemma well_formed_UpdateFields: "well_formed s \<Longrightarrow> well_formed (UpdateFields G s)"
  by (cases s; cases "sm_fields (fst s)")
     (auto simp: well_formed_def UpdateFields_Some UpdateFields_None list_all_iff)

lemma well_formed_Record: "well_formed s \<Longrightarrow> well_formed (Record E s)"
  by (cases s; cases "sm_fields (fst s)")
     (auto simp: well_formed_def Record_Some Record_None list_all_iff)

lemma well_formed_Suppress: "well_formed s \<Longrightarrow> well_formed (Suppress s)"
  by (auto simp: well_formed_def Suppress_def split: option.splits)

lemma well_formed_Finish: "well_formed s \<Longrightarrow> Finish s = Inr (s1, tr) \<Longrightarrow> well_formed s1"
  by (cases s) (auto dest!: Finish_cases simp: well_formed_def)

lemma well_formed_exec:
  "well_formed s \<Longrightarrow> exec mons x s = Inr (s1, tr, r) \<Longrightarrow> well_formed s1"
  by (cases x)
     (auto simp: well_formed_UpdateFields well_formed_Record well_formed_Suppress
           dest: well_formed_Finish split: sum.splits)

lemma well_formed_run:
  "well_formed s \<Longrightarrow> run mons xs s = Inr (s1, tr) \<Longrightarrow> well_formed s1"
proof (induction xs arbitrary: s tr)
  case Nil
  then show ?case by simp
next
  case (Cons x xs)
  from Cons.prems(2) obtain s2 tr1 r tr2 where
    e: "exec mons x s = Inr (s2, tr1, r)" and r: "run mons xs s2 = Inr (s1, tr2)"
    by (auto split: sum.splits)
  from well_formed_exec [OF Cons.prems(1) e] have "well_formed s2" .
  from Cons.IH [OF this r] show ?case .
qed

lemma well_formed_buffered:
  "well_formed (sm, h) \<Longrightarrow> subevents sm \<noteq> [] \<Longrightarrow>
     \<exists>a. sm_fields sm = Some a \<and> a \<notin> set (subevents sm)"
  by (auto simp: well_formed_def split: option.splits)

lemma has_fields_exec:
  "Fields (fst s) \<noteq> None \<Longrightarrow> exec mons x s = Inr (s1, tr, r) \<Longrightarrow> Fields (fst s1) \<noteq> None"
  by (cases s; cases x)
     (auto simp: Fields_def UpdateFields_Some Record_def ensure_fields_def Suppress_def
           split: sum.splits prod.splits dest!: Finish_cases)

lemma has_fields_run:
  "Fields (fst s) \<noteq> None \<Longrightarrow> run mons xs s = Inr (s1, tr) \<Longrightarrow> Fields (fst s1) \<noteq> None"
proof (induction xs arbitrary: s tr)
  case Nil
  then show ?case by simp
next
  case (Cons x xs)
  from Cons.prems(2) obtain s2 tr1 r tr2 where
    e: "exec mons x s = Inr (s2, tr1, r)" and r: "run mons xs s2 = Inr (s1, tr2)"
    by (auto split: sum.splits)
  from has_fields_exec [OF Cons.prems(1) e] have "Fields (fst s2) \<noteq> None" .
  from Cons.IH [OF this r] show ?case .
qed

lemma well_formed_monitor0: "well_formed monitor0"
  unfolding monitor0_def using well_formed_New [of _ "[]"] by simp

lemma well_formed_monitor1: "well_formed monitor1"
  unfolding monitor1_def by (rule well_formed_UpdateFields [OF well_formed_monitor0])

lemma well_formed_monitor2: "well_formed monitor2"
  unfolding monitor2_def
  by (rule well_formed_Record [OF well_formed_UpdateFields [OF well_formed_monitor0]])

section \<open>Suppression\<close>

lemma suppressed_UpdateFields: "suppressed (fst (UpdateFields new s)) = suppressed (fst s)"
  by (simp add: UpdateFields_def ensure_fields_def make_map_def split: option.splits prod.splits)

lemma suppressed_Record: "suppressed (fst (Record event s)) = suppressed (fst s)"
  by (simp add: Record_def ensure_fields_def make_map_def Let_def split: option.splits prod.splits)

lemma exec_suppressed:
  "suppressed (fst s) \<Longrightarrow>
     \<exists>s1 r. exec mons x s = Inr (s1, [], r) \<and> suppressed (fst s1)"
  by (cases x) (simp_all add: suppressed_UpdateFields suppressed_Record Suppress_def Finish_suppressed)

lemma run_suppressed:
  "suppressed (fst s) \<Longrightarrow> \<exists>s1. run mons xs s = Inr (s1, []) \<and> suppressed (fst s1)"
proof (induction xs arbitrary: s)
  case Nil
  then show ?case by simp
next
  case (Cons x xs)
  from exec_suppressed [OF Cons.prems]
  obtain s1 r where e: "exec mons x s = Inr (s1, [], r)" and s: "suppressed (fst s1)"
    by blast
  from Cons.IH [OF s] obtain s2 where "run mons xs s1 = Inr (s2, [])" "suppressed (fst s2)"
    by blast
  with e show ?case by simp
qed

text \<open>
  Claim C4. Once \<open>Suppress\<close> has been called, whatever the monitor held before and
  whatever is called on it afterwards (further events recorded, fields updated), nothing
  reaches a collaborator, and \<open>Finish\<close> makes no call at all, neither \<open>Record\<close> on the
  parent nor the finalisation of the trace span, and returns the monitor and the heap
  exactly as it found them.
\<close>

theorem Finish_after_Suppress_silent:
  "\<exists>s1. run mons xs (Suppress s) = Inr (s1, []) \<and> Finish s1 = Inr (s1, [])"
proof -
  have "suppressed (fst (Suppress s))"
    by (simp add: Suppress_def)
  from run_suppressed [OF this]
  obtain s1 where "run mons xs (Suppress s) = Inr (s1, [])" "suppressed (fst s1)"
    by blast
  then show ?thesis
    by (auto simp: Finish_suppressed)
qed

section \<open>What is buffered stays as it was recorded\<close>

lemma exec_keeps_buffered:
  assumes "well_formed s" "exec mons x s = Inr (s1, tr, r)" "b \<in> set (subevents (fst s))"
  shows "b \<in> set (subevents (fst s1)) \<and> cells (snd s1) b = cells (snd s) b"
proof (cases s)
  case (Pair sm h)
  with assms(1,3) have b: "b < next_free h" and a: "sm_fields sm \<noteq> Some b"
    by (auto simp: well_formed_def list_all_iff split: option.splits)
  show ?thesis
  proof (cases x)
    case (OpUpdateFields G)
    with assms Pair a b show ?thesis
      by (cases "sm_fields sm") (auto simp: UpdateFields_Some UpdateFields_None)
  next
    case (OpRecord E)
    with assms Pair a b show ?thesis
      by (cases "sm_fields sm") (auto simp: Record_Some Record_None well_formed_def)
  next
    case OpFinish
    with assms Pair a b show ?thesis
      by (auto split: sum.splits dest!: Finish_cases)
  qed (use assms in \<open>auto simp: Suppress_def\<close>)
qed

lemma run_keeps_buffered:
  "well_formed s \<Longrightarrow> run mons xs s = Inr (s1, tr) \<Longrightarrow> b \<in> set (subevents (fst s)) \<Longrightarrow>
     b \<in> set (subevents (fst s1)) \<and> cells (snd s1) b = cells (snd s) b"
proof (induction xs arbitrary: s tr)
  case Nil
  then show ?case by simp
next
  case (Cons x xs)
  from Cons.prems(2) obtain s2 tr1 r tr2 where
    e: "exec mons x s = Inr (s2, tr1, r)" and r: "run mons xs s2 = Inr (s1, tr2)"
    by (auto split: sum.splits)
  from exec_keeps_buffered [OF Cons.prems(1) e Cons.prems(3)]
  have b: "b \<in> set (subevents (fst s2))" and c: "cells (snd s2) b = cells (snd s) b"
    by simp_all
  from well_formed_exec [OF Cons.prems(1) e] have "well_formed s2" .
  from Cons.IH [OF this r b] c show ?case by simp
qed

lemma Record_appends:
  assumes "well_formed s"
  shows "\<exists>m. subevents (fst (Record E s)) = subevents (fst s) @ [m]
            \<and> cells (snd (Record E s)) m = content (snd s) (Fields (fst s)) ++ E"
  using assms
  by (cases s; cases "sm_fields (fst s)")
     (auto simp: Record_Some Record_None well_formed_def content_def Fields_def)

lemma Record_content:
  "well_formed s \<Longrightarrow>
     content (snd (Record E s)) (Fields (fst (Record E s))) = content (snd s) (Fields (fst s))"
  by (cases s; cases "sm_fields (fst s)")
     (auto simp: Record_Some Record_None well_formed_def content_def Fields_def)

lemma Record_keeps_fields:
  assumes "well_formed s" "Fields (fst s) \<noteq> None"
  shows "Fields (fst (Record E s)) = Fields (fst s)
         \<and> content (snd (Record E s)) (Fields (fst (Record E s))) = content (snd s) (Fields (fst s))"
  using assms
  by (cases s) (auto simp: Record_Some well_formed_def content_def Fields_def)

lemma UpdateFields_content:
  "content (snd (UpdateFields G s)) (Fields (fst (UpdateFields G s)))
     = content (snd s) (Fields (fst s)) ++ G"
  by (cases s; cases "sm_fields (fst s)")
     (auto simp: UpdateFields_Some UpdateFields_None content_def Fields_def)

lemma content_monitor0: "content (snd monitor0) (Fields (fst monitor0)) = Map.empty"
  by (simp add: monitor0_def heap0_def NewSpanMonitorFromParent_def make_map_def
      content_def Fields_def)

lemma content_monitor1:
  "content (snd monitor1) (Fields (fst monitor1)) = [''user'' \<mapsto> Atom 0]"
  by (simp add: monitor1_def UpdateFields_content content_monitor0)

text \<open>
  Claim C2. On a monitor whose field map holds \<open>F\<close>, \<open>Record E\<close> appends one reference
  to the buffer, and the map it refers to holds \<open>F\<close> overridden by \<open>E\<close>. Whatever is
  called on the monitor afterwards, every map that was in the buffer is still in it, and
  an \<open>UpdateFields\<close> then leaves the content of each of them as \<open>Record\<close> left it: the
  update writes to the field map, which is another object.
\<close>

theorem Record_buffers_snapshot:
  assumes "well_formed s"
  shows "\<exists>m. subevents (fst (Record E s)) = subevents (fst s) @ [m]
            \<and> cells (snd (Record E s)) m = content (snd s) (Fields (fst s)) ++ E
            \<and> (\<forall>xs s2 tr G. run mons xs (Record E s) = Inr (s2, tr) \<longrightarrow>
                 (\<forall>b \<in> set (subevents (fst (Record E s))).
                    b \<in> set (subevents (fst s2))
                    \<and> cells (snd (UpdateFields G s2)) b = cells (snd (Record E s)) b))"
proof -
  from Record_appends [OF assms, of E] obtain m where
    m: "subevents (fst (Record E s)) = subevents (fst s) @ [m]"
       "cells (snd (Record E s)) m = content (snd s) (Fields (fst s)) ++ E"
    by blast
  have w: "well_formed (Record E s)"
    by (rule well_formed_Record [OF assms])
  have "b \<in> set (subevents (fst s2))
          \<and> cells (snd (UpdateFields G s2)) b = cells (snd (Record E s)) b"
    if r: "run mons xs (Record E s) = Inr (s2, tr)"
      and b: "b \<in> set (subevents (fst (Record E s)))" for xs s2 tr G b
  proof -
    from run_keeps_buffered [OF w r b]
    have b2: "b \<in> set (subevents (fst s2))"
      and c2: "cells (snd s2) b = cells (snd (Record E s)) b"
      by simp_all
    have w2: "well_formed s2"
      by (rule well_formed_run [OF w r])
    have "exec mons (OpUpdateFields G) s2 = Inr (UpdateFields G s2, [], RetNothing)"
      by simp
    from exec_keeps_buffered [OF w2 this b2] b2 c2 show ?thesis
      by simp
  qed
  with m show ?thesis by blast
qed

theorem Record_buffers_snapshot_witness:
  "well_formed monitor1
   \<and> (\<exists>m. subevents (fst (Record [''step'' \<mapsto> Atom 1] monitor1)) = [m]
        \<and> cells (snd (Record [''step'' \<mapsto> Atom 1] monitor1)) m
            = [''user'' \<mapsto> Atom 0, ''step'' \<mapsto> Atom 1]
        \<and> cells (snd (UpdateFields [''user'' \<mapsto> Atom 5]
                        (Record [''step'' \<mapsto> Atom 1] monitor1))) m
            = [''user'' \<mapsto> Atom 0, ''step'' \<mapsto> Atom 1])"
proof -
  let ?s = "Record [''step'' \<mapsto> Atom 1] monitor1"
  have e: "subevents (fst monitor1) = []"
    by (simp add: monitor1_def monitor0_def heap0_def NewSpanMonitorFromParent_def
        make_map_def UpdateFields_Some)
  have r: "run no_monitors [] ?s = Inr (?s, [])"
    by simp
  from Record_buffers_snapshot [OF well_formed_monitor1, of "[''step'' \<mapsto> Atom 1]" no_monitors]
  obtain m where m: "subevents (fst ?s) = subevents (fst monitor1) @ [m]"
    "cells (snd ?s) m = content (snd monitor1) (Fields (fst monitor1)) ++ [''step'' \<mapsto> Atom 1]"
    "\<forall>xs s2 tr G. run no_monitors xs ?s = Inr (s2, tr) \<longrightarrow>
       (\<forall>b \<in> set (subevents (fst ?s)).
          b \<in> set (subevents (fst s2)) \<and> cells (snd (UpdateFields G s2)) b = cells (snd ?s) b)"
    by blast
  from m(3) r have "\<forall>b \<in> set (subevents (fst ?s)).
      cells (snd (UpdateFields [''user'' \<mapsto> Atom 5] ?s)) b = cells (snd ?s) b"
    by blast
  with m(1,2) e well_formed_monitor1 show ?thesis
    by (simp add: content_monitor1)
qed

text \<open>
  Claim C9. A monitor built by \<open>NewSpanMonitorFromParent\<close> (with any trace spans given
  as options) and then used in any way has a field map, and \<open>Record\<close> leaves it alone:
  \<open>Fields\<close> returns the same reference after \<open>Record E\<close> as before, and the map holds
  the same entries.
\<close>

theorem Record_leaves_Fields:
  assumes "run mons xs (NewSpanMonitorFromParent m (map WithOpenTracingSpan sps) h) = Inr (s, tr)"
  shows "Fields (fst (Record E s)) = Fields (fst s)
         \<and> content (snd (Record E s)) (Fields (fst (Record E s))) = content (snd s) (Fields (fst s))"
proof -
  have "Fields (fst (NewSpanMonitorFromParent m (map WithOpenTracingSpan sps) h)) \<noteq> None"
    by (simp add: NewSpanMonitorFromParent_def make_map_def fold_WithOpenTracingSpan Fields_def)
  from has_fields_run [OF this assms] have f: "Fields (fst s) \<noteq> None" .
  from well_formed_run [OF well_formed_New assms] have "well_formed s" .
  from Record_keeps_fields [OF this f] show ?thesis .
qed

theorem Record_leaves_Fields_witness:
  "run no_monitors [OpUpdateFields [''user'' \<mapsto> Atom 0]]
       (NewSpanMonitorFromParent (RootMonitorPtr (Some 0)) (map WithOpenTracingSpan []) heap0)
     = Inr (monitor1, [])
   \<and> Fields (fst (Record [''step'' \<mapsto> Atom 1] monitor1)) = Some 0
   \<and> Fields (fst monitor1) = Some 0
   \<and> content (snd (Record [''step'' \<mapsto> Atom 1] monitor1))
        (Fields (fst (Record [''step'' \<mapsto> Atom 1] monitor1))) = [''user'' \<mapsto> Atom 0]"
proof -
  have r: "run no_monitors [OpUpdateFields [''user'' \<mapsto> Atom 0]]
       (NewSpanMonitorFromParent (RootMonitorPtr (Some 0)) (map WithOpenTracingSpan []) heap0)
     = Inr (monitor1, [])"
    by (simp add: monitor1_def monitor0_def)
  have f: "Fields (fst monitor1) = Some 0"
    by (simp add: monitor1_def monitor0_def heap0_def NewSpanMonitorFromParent_def
        make_map_def UpdateFields_Some Fields_def)
  note t = Record_leaves_Fields [OF r, of "[''step'' \<mapsto> Atom 1]"]
  from t [THEN conjunct1] f
  have a: "Fields (fst (Record [''step'' \<mapsto> Atom 1] monitor1)) = Some 0"
    by (rule trans)
  from t [THEN conjunct2] content_monitor1
  have b: "content (snd (Record [''step'' \<mapsto> Atom 1] monitor1))
             (Fields (fst (Record [''step'' \<mapsto> Atom 1] monitor1))) = [''user'' \<mapsto> Atom 0]"
    by (rule trans)
  from r a f b show ?thesis
    by (intro conjI)
qed

section \<open>Updating the fields\<close>

text \<open>
  Claim C6, as the code has it. \<open>UpdateFields\<close> merges into what the monitor already
  holds: after \<open>UpdateFields F1\<close> and \<open>UpdateFields F2\<close> on a monitor whose fields were
  \<open>F0\<close>, \<open>Fields\<close> holds \<open>F0\<close> overridden by \<open>F1\<close>, overridden by \<open>F2\<close>. On a newly
  constructed monitor, whose field map is empty, that is \<open>F1\<close> overridden by \<open>F2\<close>.
\<close>

theorem UpdateFields_twice_merges:
  "content (snd (UpdateFields F2 (UpdateFields F1 s)))
       (Fields (fst (UpdateFields F2 (UpdateFields F1 s))))
     = (content (snd s) (Fields (fst s)) ++ F1) ++ F2
   \<and> content (snd (UpdateFields F2 (UpdateFields F1
                 (NewSpanMonitorFromParent m (map WithOpenTracingSpan sps) h))))
       (Fields (fst (UpdateFields F2 (UpdateFields F1
                 (NewSpanMonitorFromParent m (map WithOpenTracingSpan sps) h)))))
     = F1 ++ F2"
proof -
  have "content (snd (NewSpanMonitorFromParent m (map WithOpenTracingSpan sps) h))
          (Fields (fst (NewSpanMonitorFromParent m (map WithOpenTracingSpan sps) h)))
        = Map.empty"
    by (simp add: NewSpanMonitorFromParent_def make_map_def fold_WithOpenTracingSpan
        content_def Fields_def)
  then show ?thesis
    by (simp add: UpdateFields_content)
qed

text \<open>
  The claim as written fails on a monitor that already has a field: with \<open>user\<close> set
  before, the two updates of \<open>op\<close> leave both \<open>user\<close> and \<open>op\<close>, not the union of the
  two updates alone.
\<close>

theorem UpdateFields_twice_counterexample:
  "content (snd (UpdateFields [''op'' \<mapsto> Atom 2] (UpdateFields [''op'' \<mapsto> Atom 1] monitor1)))
     (Fields (fst (UpdateFields [''op'' \<mapsto> Atom 2] (UpdateFields [''op'' \<mapsto> Atom 1] monitor1))))
   \<noteq> [''op'' \<mapsto> Atom 1] ++ [''op'' \<mapsto> Atom 2]"
proof -
  have "([''user'' \<mapsto> Atom 0, ''op'' \<mapsto> Atom 2] :: nat fmap) ''user''
          \<noteq> ([''op'' \<mapsto> Atom 2] :: nat fmap) ''user''"
    by simp
  then have "([''user'' \<mapsto> Atom 0, ''op'' \<mapsto> Atom 2] :: nat fmap) \<noteq> [''op'' \<mapsto> Atom 2]"
    by metis
  then show ?thesis
    by (simp add: UpdateFields_content content_monitor1)
qed

section \<open>Finishing\<close>

lemma Finish_unsuppressed:
  assumes "well_formed s" "\<not> suppressed (fst s)" "parent (fst s) \<noteq> NilMonitor"
  shows "\<exists>h1. calls_of (Finish s) =
               finish_span (fst s) @ [ParentRecord (parent (fst s)) (Fields (fst s)) h1]
           \<and> Finish s =
               (if parent (fst s) = SpanMonitorPtr None
                then Inl (NilPointerDereference, calls_of (Finish s))
                else Inr ((fst s, h1), calls_of (Finish s)))
           \<and> (subevents (fst s) = [] \<longrightarrow> h1 = snd s)
           \<and> content h1 (Fields (fst s)) =
               (if subevents (fst s) = [] then content (snd s) (Fields (fst s))
                else (content (snd s) (Fields (fst s)))
                       (SubeventsField (fst s) \<mapsto> Slice (subevents (fst s))))
           \<and> (\<forall>b \<in> set (subevents (fst s)). cells h1 b = cells (snd s) b)"
proof (cases s)
  case (Pair sm h)
  show ?thesis
  proof (cases "subevents sm = []")
    case True
    from assms Pair True have f: "Finish s = forward (sm, h) (finish_span sm)"
      by (simp add: Finish_empty_buffer)
    show ?thesis
      unfolding f using assms(3) Pair True
      by (intro exI [of _ h]) (simp add: forward_def calls_of_def Fields_def)
  next
    case False
    from well_formed_buffered [OF assms(1) [unfolded Pair] False]
    obtain a where a: "sm_fields sm = Some a" "a \<notin> set (subevents sm)"
      by blast
    let ?h1 = "h\<lparr>cells := (cells h)
                  (a := (cells h a)(SubeventsField sm \<mapsto> Slice (subevents sm)))\<rparr>"
    from assms Pair False a have f: "Finish s = forward (sm, ?h1) (finish_span sm)"
      by (simp add: Finish_buffered)
    show ?thesis
      unfolding f using assms(3) Pair False a
      by (intro exI [of _ ?h1]) (auto simp: forward_def calls_of_def Fields_def content_def)
  qed
qed

text \<open>
  Claim C3. \<open>Finish\<close> on a monitor that is not suppressed (and has a parent) makes one
  call of the parent's \<open>Record\<close>, as its last call, passing the monitor's own field map.
  In the heap \<open>h1\<close> of the moment of that call, if the buffer is empty the map holds
  what it held before \<open>Finish\<close> (nothing was written at all), no key added; otherwise it
  holds the same with the sub-events key set to the whole buffer, in order, and the
  buffered maps hold what they held. \<open>Finish\<close> then returns, leaving that heap; only if
  the parent is a nil \<open>*SpanMonitor\<close> does the call panic.
\<close>

theorem Finish_forwards_fields:
  assumes "well_formed s" "\<not> suppressed (fst s)" "parent (fst s) \<noteq> NilMonitor"
  shows "\<exists>h1. calls_of (Finish s) =
               finish_span (fst s) @ [ParentRecord (parent (fst s)) (Fields (fst s)) h1]
           \<and> (parent (fst s) \<noteq> SpanMonitorPtr None \<longrightarrow>
                Finish s = Inr ((fst s, h1), calls_of (Finish s)))
           \<and> (parent (fst s) = SpanMonitorPtr None \<longrightarrow>
                Finish s = Inl (NilPointerDereference, calls_of (Finish s)))
           \<and> (subevents (fst s) = [] \<longrightarrow>
                h1 = snd s \<and> content h1 (Fields (fst s)) = content (snd s) (Fields (fst s)))
           \<and> (subevents (fst s) \<noteq> [] \<longrightarrow>
                content h1 (Fields (fst s)) =
                  (content (snd s) (Fields (fst s)))
                    (SubeventsField (fst s) \<mapsto> Slice (subevents (fst s))))
           \<and> (\<forall>b \<in> set (subevents (fst s)). cells h1 b = cells (snd s) b)"
proof -
  from Finish_unsuppressed [OF assms] obtain h1 where
    "calls_of (Finish s) =
       finish_span (fst s) @ [ParentRecord (parent (fst s)) (Fields (fst s)) h1]"
    "Finish s =
       (if parent (fst s) = SpanMonitorPtr None
        then Inl (NilPointerDereference, calls_of (Finish s))
        else Inr ((fst s, h1), calls_of (Finish s)))"
    "subevents (fst s) = [] \<longrightarrow> h1 = snd s"
    "content h1 (Fields (fst s)) =
       (if subevents (fst s) = [] then content (snd s) (Fields (fst s))
        else (content (snd s) (Fields (fst s)))
               (SubeventsField (fst s) \<mapsto> Slice (subevents (fst s))))"
    "\<forall>b \<in> set (subevents (fst s)). cells h1 b = cells (snd s) b"
    by blast
  then show ?thesis
    by (intro exI [of _ h1]) (simp split: if_splits)
qed

lemma monitor0_facts:
  "\<not> suppressed (fst monitor0)" "parent (fst monitor0) = RootMonitorPtr (Some 0)"
  "subevents (fst monitor0) = []" "span (fst monitor0) = None" "Fields (fst monitor0) = Some 0"
  "SubeventsField (fst monitor0) = ''subevents''"
  by (simp_all add: monitor0_def heap0_def NewSpanMonitorFromParent_def make_map_def Fields_def
      FieldEventSubevents_def)

lemma monitor1_facts:
  "\<not> suppressed (fst monitor1)" "parent (fst monitor1) = RootMonitorPtr (Some 0)"
  "subevents (fst monitor1) = []" "span (fst monitor1) = None" "Fields (fst monitor1) = Some 0"
  "SubeventsField (fst monitor1) = ''subevents''"
  by (simp_all add: monitor1_def monitor0_def heap0_def NewSpanMonitorFromParent_def make_map_def
      Fields_def FieldEventSubevents_def UpdateFields_Some)

lemma content_monitor1_at: "content (snd monitor1) (Some 0) = [''user'' \<mapsto> Atom 0]"
  using content_monitor1 by (simp add: monitor1_facts)

lemma monitor2_facts:
  "\<not> suppressed (fst monitor2)" "parent (fst monitor2) = RootMonitorPtr (Some 0)"
  "subevents (fst monitor2) = [1]" "span (fst monitor2) = None" "Fields (fst monitor2) = Some 0"
  "SubeventsField (fst monitor2) = ''subevents''"
  "content (snd monitor2) (Some 0) = [''subevents'' \<mapsto> Atom 9]"
  by (simp_all add: monitor2_def monitor0_def heap0_def NewSpanMonitorFromParent_def make_map_def
      Fields_def FieldEventSubevents_def UpdateFields_Some Record_Some content_def)

theorem Finish_forwards_fields_witness:
  "well_formed monitor1 \<and> \<not> suppressed (fst monitor1) \<and> parent (fst monitor1) \<noteq> NilMonitor
   \<and> subevents (fst monitor1) = []
   \<and> Finish monitor1
        = Inr (monitor1, [ParentRecord (RootMonitorPtr (Some 0)) (Some 0) (snd monitor1)])
   \<and> content (snd monitor1) (Some 0) = [''user'' \<mapsto> Atom 0]
   \<and> well_formed monitor2 \<and> \<not> suppressed (fst monitor2) \<and> parent (fst monitor2) \<noteq> NilMonitor
   \<and> subevents (fst monitor2) = [1]
   \<and> (\<exists>h1. Finish monitor2
              = Inr ((fst monitor2, h1), [ParentRecord (RootMonitorPtr (Some 0)) (Some 0) h1])
         \<and> content h1 (Some 0) = [''subevents'' \<mapsto> Slice [1]]
         \<and> cells h1 1 = cells (snd monitor2) 1)"
proof -
  have p1: "parent (fst monitor1) \<noteq> NilMonitor" and p2: "parent (fst monitor2) \<noteq> NilMonitor"
    by (simp_all add: monitor1_facts monitor2_facts)
  from Finish_forwards_fields [OF well_formed_monitor1 monitor1_facts(1) p1]
  have "Finish monitor1
          = Inr (monitor1, [ParentRecord (RootMonitorPtr (Some 0)) (Some 0) (snd monitor1)])"
    by (auto simp: monitor1_facts finish_span_def)
  moreover
  from Finish_forwards_fields [OF well_formed_monitor2 monitor2_facts(1) p2]
  have "\<exists>h1. Finish monitor2
              = Inr ((fst monitor2, h1), [ParentRecord (RootMonitorPtr (Some 0)) (Some 0) h1])
         \<and> content h1 (Some 0) = [''subevents'' \<mapsto> Slice [1]]
         \<and> cells h1 1 = cells (snd monitor2) 1"
    by (auto simp: monitor2_facts finish_span_def)
  ultimately show ?thesis
    using well_formed_monitor1 well_formed_monitor2 p1 p2 content_monitor1_at
    by (simp add: monitor1_facts monitor2_facts)
qed

text \<open>
  Claim C10. If the field map already has an entry under the monitor's sub-events key
  and the buffer is not empty, \<open>Finish\<close> (not suppressed) raises no error of its own and
  calls the parent's \<open>Record\<close> with the field map; in the heap \<open>h1\<close> of the moment of
  that call the entry under the key is the buffer, not what the caller had set, and every
  other entry is as it was.
\<close>

theorem Finish_overwrites_subevents_key:
  assumes "well_formed s" "\<not> suppressed (fst s)" "parent (fst s) \<noteq> NilMonitor"
    and "subevents (fst s) \<noteq> []"
    and "content (snd s) (Fields (fst s)) (SubeventsField (fst s)) = Some v"
  shows "\<exists>h1. calls_of (Finish s) =
               finish_span (fst s) @ [ParentRecord (parent (fst s)) (Fields (fst s)) h1]
           \<and> (parent (fst s) \<noteq> SpanMonitorPtr None \<longrightarrow>
                Finish s = Inr ((fst s, h1), calls_of (Finish s)))
           \<and> (parent (fst s) = SpanMonitorPtr None \<longrightarrow>
                Finish s = Inl (NilPointerDereference, calls_of (Finish s)))
           \<and> content h1 (Fields (fst s)) (SubeventsField (fst s))
               = Some (Slice (subevents (fst s)))
           \<and> (\<forall>k. k \<noteq> SubeventsField (fst s) \<longrightarrow>
                 content h1 (Fields (fst s)) k = content (snd s) (Fields (fst s)) k)"
proof -
  from Finish_unsuppressed [OF assms(1-3)] assms(4) obtain h1 where
    "calls_of (Finish s) =
       finish_span (fst s) @ [ParentRecord (parent (fst s)) (Fields (fst s)) h1]"
    "Finish s =
       (if parent (fst s) = SpanMonitorPtr None
        then Inl (NilPointerDereference, calls_of (Finish s))
        else Inr ((fst s, h1), calls_of (Finish s)))"
    "content h1 (Fields (fst s)) =
       (content (snd s) (Fields (fst s)))(SubeventsField (fst s) \<mapsto> Slice (subevents (fst s)))"
    by auto
  then show ?thesis
    by (intro exI [of _ h1]) (simp split: if_splits)
qed

theorem Finish_overwrites_subevents_key_witness:
  "well_formed monitor2 \<and> \<not> suppressed (fst monitor2) \<and> parent (fst monitor2) \<noteq> NilMonitor
   \<and> subevents (fst monitor2) \<noteq> []
   \<and> content (snd monitor2) (Fields (fst monitor2)) (SubeventsField (fst monitor2))
       = Some (Atom 9)
   \<and> (\<exists>h1. Finish monitor2
              = Inr ((fst monitor2, h1), [ParentRecord (RootMonitorPtr (Some 0)) (Some 0) h1])
         \<and> content h1 (Some 0) ''subevents'' = Some (Slice [1]))"
proof -
  have p: "parent (fst monitor2) \<noteq> NilMonitor" and n: "subevents (fst monitor2) \<noteq> []"
    and c: "content (snd monitor2) (Fields (fst monitor2)) (SubeventsField (fst monitor2))
              = Some (Atom 9)"
    by (simp_all add: monitor2_facts)
  from Finish_overwrites_subevents_key [OF well_formed_monitor2 monitor2_facts(1) p n c]
  have "\<exists>h1. Finish monitor2
              = Inr ((fst monitor2, h1), [ParentRecord (RootMonitorPtr (Some 0)) (Some 0) h1])
         \<and> content h1 (Some 0) ''subevents'' = Some (Slice [1])"
    by (auto simp: monitor2_facts finish_span_def)
  with well_formed_monitor2 monitor2_facts(1) p n c show ?thesis
    by blast
qed

section \<open>The buffer only grows\<close>

lemma exec_buffer_step:
  assumes "well_formed s" "x \<noteq> OpFinish"
  shows "\<exists>s1 r ms. exec mons x s = Inr (s1, [], r)
           \<and> subevents (fst s1) = subevents (fst s) @ ms
           \<and> map (cells (snd s1)) ms = recorded_in_order [x] (content (snd s) (Fields (fst s)))
           \<and> content (snd s1) (Fields (fst s1))
               = (case x of OpUpdateFields G \<Rightarrow> content (snd s) (Fields (fst s)) ++ G
                  | _ \<Rightarrow> content (snd s) (Fields (fst s)))"
proof (cases x)
  case (OpUpdateFields G)
  have "subevents (fst (UpdateFields G s)) = subevents (fst s)"
    by (cases s; cases "sm_fields (fst s)") (auto simp: UpdateFields_Some UpdateFields_None)
  with OpUpdateFields show ?thesis
    by (simp add: UpdateFields_content)
next
  case (OpRecord E)
  from Record_appends [OF assms(1), of E] obtain m where
    "subevents (fst (Record E s)) = subevents (fst s) @ [m]"
    "cells (snd (Record E s)) m = content (snd s) (Fields (fst s)) ++ E"
    by blast
  with OpRecord Record_content [OF assms(1), of E] show ?thesis
    by simp
qed (use assms in \<open>auto simp: Suppress_def content_def Fields_def split: option.splits\<close>)

lemma recorded_in_order_Cons:
  "x \<noteq> OpFinish \<Longrightarrow>
     recorded_in_order (x # xs) F =
       recorded_in_order [x] F
       @ recorded_in_order xs (case x of OpUpdateFields G \<Rightarrow> F ++ G | _ \<Rightarrow> F)"
  by (cases x) simp_all

lemma recorded_in_order_Records:
  "recorded_in_order (map OpRecord Es) F = map (\<lambda>E. F ++ E) Es"
  by (induction Es) simp_all

lemma run_buffer:
  assumes "well_formed s" "OpFinish \<notin> set xs"
  shows "\<exists>s1 ms. run mons xs s = Inr (s1, [])
           \<and> subevents (fst s1) = subevents (fst s) @ ms
           \<and> map (cells (snd s1)) ms = recorded_in_order xs (content (snd s) (Fields (fst s)))"
  using assms
proof (induction xs arbitrary: s)
  case Nil
  then show ?case by simp
next
  case (Cons x xs)
  from Cons.prems have x: "x \<noteq> OpFinish" and xs: "OpFinish \<notin> set xs"
    by auto
  let ?F = "content (snd s) (Fields (fst s))"
  from exec_buffer_step [OF Cons.prems(1) x, of mons]
  obtain s2 r ms1 where
    e: "exec mons x s = Inr (s2, [], r)"
    and b2: "subevents (fst s2) = subevents (fst s) @ ms1"
    and c2: "map (cells (snd s2)) ms1 = recorded_in_order [x] ?F"
    and f2: "content (snd s2) (Fields (fst s2))
               = (case x of OpUpdateFields G \<Rightarrow> ?F ++ G | _ \<Rightarrow> ?F)"
    by blast
  from well_formed_exec [OF Cons.prems(1) e] have w2: "well_formed s2" .
  from Cons.IH [OF w2 xs] obtain s1 ms2 where
    r: "run mons xs s2 = Inr (s1, [])"
    and b1: "subevents (fst s1) = subevents (fst s2) @ ms2"
    and c1: "map (cells (snd s1)) ms2 = recorded_in_order xs (content (snd s2) (Fields (fst s2)))"
    by blast
  have "cells (snd s1) b = cells (snd s2) b" if "b \<in> set ms1" for b
    using run_keeps_buffered [OF w2 r, of b] that b2 by simp
  then have "map (cells (snd s1)) ms1 = map (cells (snd s2)) ms1"
    by simp
  with c2 c1 f2 have "map (cells (snd s1)) (ms1 @ ms2) = recorded_in_order (x # xs) ?F"
    by (simp add: recorded_in_order_Cons [OF x, of xs])
  moreover from b1 b2 have "subevents (fst s1) = subevents (fst s) @ (ms1 @ ms2)"
    by simp
  moreover from e r have "run mons (x # xs) s = Inr (s1, [])"
    by simp
  ultimately show ?case
    by blast
qed

lemma exec_ignores_buffer:
  assumes "x \<noteq> OpFinish"
  shows "\<exists>sm1 h1 r. exec mons x (sm, h) = Inr ((sm1, h1), [], r)
           \<and> exec mons x (sm\<lparr>subevents := bs\<rparr>, h)
               = Inr ((sm1\<lparr>subevents := bs @ drop (length (subevents sm)) (subevents sm1)\<rparr>, h1),
                      [], r)"
  using assms
  by (cases x)
     (auto simp: UpdateFields_def Record_def ensure_fields_def make_map_def copy_into_def
        Suppress_def Fields_def Parent_def Root_def split: option.splits)

text \<open>
  Claim C7. Over any sequence of operations other than \<open>Finish\<close>, the buffer afterwards
  is the buffer before followed by one new entry for each \<open>Record\<close>, in the order of the
  calls, each holding the fields of that moment overridden by its event; what was
  buffered before still holds what it held. In particular the events \<open>E1, \<dots>, En\<close>
  recorded one after the other add exactly \<open>n\<close> entries, the fields overridden by
  \<open>E1\<close>, \<dots>, by \<open>En\<close>, in this order. And none of these operations looks at the
  buffer: run on a monitor with another buffer \<open>bs\<close>, each returns the same value, makes
  the same (no) calls and leaves the same heap and the same monitor, but for the buffer,
  which is \<open>bs\<close> followed by the entries it added.
\<close>

theorem buffer_append_only:
  assumes "well_formed s" "OpFinish \<notin> set xs"
  shows "(\<exists>s1 ms. run mons xs s = Inr (s1, [])
            \<and> subevents (fst s1) = subevents (fst s) @ ms
            \<and> map (cells (snd s1)) ms = recorded_in_order xs (content (snd s) (Fields (fst s)))
            \<and> (\<forall>b \<in> set (subevents (fst s)). cells (snd s1) b = cells (snd s) b))
         \<and> (\<exists>s1 ms. run mons (map OpRecord Es) s = Inr (s1, [])
            \<and> subevents (fst s1) = subevents (fst s) @ ms
            \<and> map (cells (snd s1)) ms = map (\<lambda>E. content (snd s) (Fields (fst s)) ++ E) Es)
         \<and> (\<forall>x \<in> set xs. \<forall>sm h bs. \<exists>sm1 h1 r.
               exec mons x (sm, h) = Inr ((sm1, h1), [], r)
               \<and> exec mons x (sm\<lparr>subevents := bs\<rparr>, h)
                   = Inr ((sm1\<lparr>subevents := bs @ drop (length (subevents sm)) (subevents sm1)\<rparr>,
                           h1), [], r))"
proof (intro conjI ballI allI)
  from run_buffer [OF assms, of mons] obtain s1 ms where
    r: "run mons xs s = Inr (s1, [])"
    and b: "subevents (fst s1) = subevents (fst s) @ ms"
    and c: "map (cells (snd s1)) ms = recorded_in_order xs (content (snd s) (Fields (fst s)))"
    by blast
  have "\<forall>b \<in> set (subevents (fst s)). cells (snd s1) b = cells (snd s) b"
    using run_keeps_buffered [OF assms(1) r] by blast
  with r b c show "\<exists>s1 ms. run mons xs s = Inr (s1, [])
            \<and> subevents (fst s1) = subevents (fst s) @ ms
            \<and> map (cells (snd s1)) ms = recorded_in_order xs (content (snd s) (Fields (fst s)))
            \<and> (\<forall>b \<in> set (subevents (fst s)). cells (snd s1) b = cells (snd s) b)"
    by blast
next
  have "OpFinish \<notin> set (map OpRecord Es)"
    by auto
  from run_buffer [OF assms(1) this, of mons]
  show "\<exists>s1 ms. run mons (map OpRecord Es) s = Inr (s1, [])
            \<and> subevents (fst s1) = subevents (fst s) @ ms
            \<and> map (cells (snd s1)) ms = map (\<lambda>E. content (snd s) (Fields (fst s)) ++ E) Es"
    by (simp add: recorded_in_order_Records)
next
  fix x sm h bs
  assume "x \<in> set xs"
  with assms(2) have "x \<noteq> OpFinish"
    by auto
  then show "\<exists>sm1 h1 r. exec mons x (sm, h) = Inr ((sm1, h1), [], r)
               \<and> exec mons x (sm\<lparr>subevents := bs\<rparr>, h)
                   = Inr ((sm1\<lparr>subevents := bs @ drop (length (subevents sm)) (subevents sm1)\<rparr>,
                           h1), [], r)"
    by (rule exec_ignores_buffer)
qed

theorem buffer_append_only_witness:
  "well_formed monitor1
   \<and> OpFinish \<notin> set [OpRecord [''step'' \<mapsto> Atom 1], OpUpdateFields [''op'' \<mapsto> Atom 2],
                      OpFields, OpRecord [''step'' \<mapsto> Atom (3::nat)]]
   \<and> (\<exists>s1 ms. run no_monitors
                  [OpRecord [''step'' \<mapsto> Atom 1], OpUpdateFields [''op'' \<mapsto> Atom 2],
                   OpFields, OpRecord [''step'' \<mapsto> Atom 3]] monitor1 = Inr (s1, [])
          \<and> subevents (fst s1) = ms
          \<and> map (cells (snd s1)) ms
              = [[''user'' \<mapsto> Atom 0, ''step'' \<mapsto> Atom 1],
                 [''user'' \<mapsto> Atom 0, ''op'' \<mapsto> Atom 2, ''step'' \<mapsto> Atom 3]])"
proof -
  let ?xs = "[OpRecord [''step'' \<mapsto> Atom 1], OpUpdateFields [''op'' \<mapsto> Atom 2],
              OpFields, OpRecord [''step'' \<mapsto> Atom (3::nat)]]"
  have x: "OpFinish \<notin> set ?xs"
    by simp
  from buffer_append_only [OF well_formed_monitor1 x, of no_monitors "[]"]
  obtain s1 ms where "run no_monitors ?xs monitor1 = Inr (s1, [])"
    "subevents (fst s1) = subevents (fst monitor1) @ ms"
    "map (cells (snd s1)) ms
       = recorded_in_order ?xs (content (snd monitor1) (Fields (fst monitor1)))"
    by blast
  then have "\<exists>s1 ms. run no_monitors ?xs monitor1 = Inr (s1, [])
          \<and> subevents (fst s1) = ms
          \<and> map (cells (snd s1)) ms
              = [[''user'' \<mapsto> Atom 0, ''step'' \<mapsto> Atom 1],
                 [''user'' \<mapsto> Atom 0, ''op'' \<mapsto> Atom 2, ''step'' \<mapsto> Atom 3]]"
    by (simp add: content_monitor1_at monitor1_facts)
  with well_formed_monitor1 x show ?thesis
    by blast
qed

section \<open>What reaches the parent\<close>

lemma exec_frame:
  assumes "x \<noteq> OpFinish" "exec mons x s = Inr (s1, tr, r)"
  shows "parent (fst s1) = parent (fst s) \<and> span (fst s1) = span (fst s)
         \<and> suppressed (fst s1) = (suppressed (fst s) \<or> x = OpSuppress)"
  using assms
  by (cases s; cases x)
     (auto simp: UpdateFields_def Record_def ensure_fields_def make_map_def Suppress_def
        split: option.splits)

lemma run_frame:
  "OpFinish \<notin> set xs \<Longrightarrow> run mons xs s = Inr (s1, tr) \<Longrightarrow>
     parent (fst s1) = parent (fst s) \<and> span (fst s1) = span (fst s)
     \<and> suppressed (fst s1) = (suppressed (fst s) \<or> OpSuppress \<in> set xs)"
proof (induction xs arbitrary: s tr)
  case Nil
  then show ?case by simp
next
  case (Cons x xs)
  from Cons.prems(2) obtain s2 tr1 r tr2 where
    e: "exec mons x s = Inr (s2, tr1, r)" and r: "run mons xs s2 = Inr (s1, tr2)"
    by (auto split: sum.splits)
  from Cons.prems(1) have x: "x \<noteq> OpFinish" and xs: "OpFinish \<notin> set xs"
    by auto
  from exec_frame [OF x e] Cons.IH [OF xs r] show ?case
    by auto
qed

lemma finish_span_no_Record: "filter is_ParentRecord (finish_span sm) = []"
  by (simp add: finish_span_def split: option.splits)

lemma Finish_calls:
  assumes "well_formed s" "parent (fst s) \<noteq> NilMonitor"
  shows "\<exists>h1. calls_of (Finish s) =
           (if suppressed (fst s) then []
            else finish_span (fst s) @ [ParentRecord (parent (fst s)) (Fields (fst s)) h1])"
proof (cases "suppressed (fst s)")
  case True
  then show ?thesis
    by (simp add: Finish_suppressed calls_of_def)
next
  case False
  from Finish_unsuppressed [OF assms(1) False assms(2)] False show ?thesis
    by auto
qed

lemma calls_of_run_Finish:
  "run mons xs s = Inr (s1, []) \<Longrightarrow>
     calls_of (run mons (xs @ [OpFinish]) s) = calls_of (Finish s1)"
  by (cases "Finish s1") (auto simp: run_append calls_of_def)

lemma Root_calls_getters:
  "c \<in> set (Root_calls mons m d) \<Longrightarrow>
     \<exists>n p. c = GetParent p \<and> ancestor mons m n = SpanMonitorPtr (Some p)"
proof (induction mons m d rule: Root_calls.induct)
  case (1 mons monitor depth)
  show ?case
  proof (cases "is_span monitor \<and> Suc depth \<le> maxDepth")
    case True
    then obtain p where m: "monitor = SpanMonitorPtr (Some p)"
      by (cases monitor rule: is_span.cases) auto
    from True m have
      r: "Root_calls mons monitor depth
            = (GetParent p :: 'a call) # Root_calls mons (Parent (mons p)) (Suc depth)"
      by (subst Root_calls.simps) simp
    show ?thesis
    proof (cases "c = GetParent p")
      case True
      have "ancestor mons monitor 0 = SpanMonitorPtr (Some p)"
        by (simp add: m)
      with True show ?thesis
        by blast
    next
      case False
      with "1.prems" r have "c \<in> set (Root_calls mons (Parent (mons p)) (Suc depth))"
        by simp
      with True m have "\<exists>n q. c = GetParent q
          \<and> ancestor mons (Parent (mons p)) n = SpanMonitorPtr (Some q)"
        by (intro "1.IH") auto
      then obtain n q where "c = GetParent q"
        "ancestor mons (Parent (mons p)) n = SpanMonitorPtr (Some q)"
        by blast
      with m have "c = GetParent q \<and> ancestor mons monitor (Suc n) = SpanMonitorPtr (Some q)"
        by simp
      then show ?thesis
        by blast
    qed
  next
    case False
    have "Root_calls mons monitor depth = ([] :: 'a call list)"
      using False
      by (subst Root_calls.simps, cases monitor rule: is_span.cases)
         (auto split: option.splits)
    with "1.prems" show ?thesis
      by simp
  qed
qed

lemma exec_inner_calls:
  assumes "x \<noteq> OpFinish"
  shows "\<exists>s1 r. exec mons x s = Inr (s1, [], r)
           \<and> (x \<noteq> OpRoot \<longrightarrow> ret_calls r = [])
           \<and> (\<forall>c \<in> set (ret_calls r).
                 \<exists>n p. c = GetParent p
                   \<and> ancestor mons (Parent (fst s)) n = SpanMonitorPtr (Some p))"
  using assms by (cases x) (auto dest: Root_calls_getters)

text \<open>
  Claim C8, as the code has it, for a monitor whose parent is not the nil interface.
  No operation before \<open>Finish\<close> hands anything to the parent or to the span, and
  \<open>UpdateFields\<close>, \<open>Record\<close>, \<open>Suppress\<close>, \<open>Fields\<close> and \<open>Parent\<close> make no call on any
  other monitor at all. \<open>Root\<close> does call into the parent: it calls the getter
  \<open>Parent\<close> of the span monitors up the chain, the parent first, and nothing else.
  The calls made over a lifecycle that ends in \<open>Finish\<close> are those of that \<open>Finish\<close>:
  the parent's \<open>Record\<close> once, as the last call, if the monitor was not suppressed, and
  no call if \<open>Suppress\<close> was called (or the monitor was suppressed from the start).
\<close>

theorem parent_Record_only_at_Finish:
  assumes "well_formed s" "parent (fst s) \<noteq> NilMonitor" "OpFinish \<notin> set xs"
  shows "(\<exists>s1 h1. run mons xs s = Inr (s1, [])
            \<and> calls_of (run mons (xs @ [OpFinish]) s)
                = (if suppressed (fst s) \<or> OpSuppress \<in> set xs then []
                   else finish_span (fst s)
                        @ [ParentRecord (parent (fst s)) (Fields (fst s1)) h1])
            \<and> length (filter is_ParentRecord (calls_of (run mons (xs @ [OpFinish]) s)))
                = (if suppressed (fst s) \<or> OpSuppress \<in> set xs then 0 else 1))
         \<and> (\<forall>x \<in> set xs. \<forall>s0. \<exists>s1 r. exec mons x s0 = Inr (s1, [], r)
               \<and> (x \<noteq> OpRoot \<longrightarrow> ret_calls r = [])
               \<and> (\<forall>c \<in> set (ret_calls r).
                     \<exists>n p. c = GetParent p
                       \<and> ancestor mons (Parent (fst s0)) n = SpanMonitorPtr (Some p)))"
proof (intro conjI ballI allI)
  from run_buffer [OF assms(1,3), of mons] obtain s1 where
    r: "run mons xs s = Inr (s1, [])"
    by blast
  from well_formed_run [OF assms(1) r] have w: "well_formed s1" .
  from run_frame [OF assms(3) r] have
    f: "parent (fst s1) = parent (fst s)" "span (fst s1) = span (fst s)"
       "suppressed (fst s1) = (suppressed (fst s) \<or> OpSuppress \<in> set xs)"
    by simp_all
  from f(2) have fs: "(finish_span (fst s1) :: 'a call list) = finish_span (fst s)"
    by (simp add: finish_span_def)
  from assms(2) f(1) have "parent (fst s1) \<noteq> NilMonitor"
    by simp
  from Finish_calls [OF w this] obtain h1 where
    "calls_of (Finish s1) =
       (if suppressed (fst s1) then []
        else finish_span (fst s1) @ [ParentRecord (parent (fst s1)) (Fields (fst s1)) h1])"
    by blast
  with f fs calls_of_run_Finish [OF r]
  have c: "calls_of (run mons (xs @ [OpFinish]) s)
             = (if suppressed (fst s) \<or> OpSuppress \<in> set xs then []
                else finish_span (fst s)
                     @ [ParentRecord (parent (fst s)) (Fields (fst s1)) h1])"
    by simp
  then have "length (filter is_ParentRecord (calls_of (run mons (xs @ [OpFinish]) s)))
               = (if suppressed (fst s) \<or> OpSuppress \<in> set xs then 0 else 1)"
    by (simp add: finish_span_no_Record)
  with r c show "\<exists>s1 h1. run mons xs s = Inr (s1, [])
            \<and> calls_of (run mons (xs @ [OpFinish]) s)
                = (if suppressed (fst s) \<or> OpSuppress \<in> set xs then []
                   else finish_span (fst s)
                        @ [ParentRecord (parent (fst s)) (Fields (fst s1)) h1])
            \<and> length (filter is_ParentRecord (calls_of (run mons (xs @ [OpFinish]) s)))
                = (if suppressed (fst s) \<or> OpSuppress \<in> set xs then 0 else 1)"
    by blast
next
  fix x s0
  assume "x \<in> set xs"
  with assms(3) have "x \<noteq> OpFinish"
    by auto
  then show "\<exists>s1 r. exec mons x s0 = Inr (s1, [], r)
               \<and> (x \<noteq> OpRoot \<longrightarrow> ret_calls r = [])
               \<and> (\<forall>c \<in> set (ret_calls r).
                     \<exists>n p. c = GetParent p
                       \<and> ancestor mons (Parent (fst s0)) n = SpanMonitorPtr (Some p))"
    by (rule exec_inner_calls)
qed

text \<open>
  The claim as written fails in these ways. When the lifecycle contains \<open>Suppress\<close>,
  the single \<open>Finish\<close> at its end calls nothing, so the parent's \<open>Record\<close> is called
  zero times, not once. \<open>Root\<close> does call into the parent: on a monitor whose parent is
  span monitor \<open>0\<close> (itself below a root) it calls \<open>Parent\<close> on that span monitor. And a
  monitor constructed with the nil interface as parent has no parent to call: \<open>Finish\<close>
  panics before any call.
\<close>

theorem suppressed_lifecycle_counterexample:
  "run no_monitors [OpSuppress, OpFinish] monitor0 = Inr (Suppress monitor0, [])
   \<and> length (filter is_ParentRecord
                (calls_of (run no_monitors [OpSuppress, OpFinish] monitor0))) \<noteq> 1
   \<and> exec chain_mons OpRoot (chain_mons 1, heap0)
         = Inr ((chain_mons 1, heap0), [], RetRoot (Some 7) [GetParent 0])
   \<and> run no_monitors [OpFinish] (NewSpanMonitorFromParent NilMonitor [] heap0)
         = Inl (NilPointerDereference, [])"
proof -
  have "Root_calls chain_mons (Parent (chain_mons 1)) 0 = ([GetParent 0] :: nat call list)"
    by (simp add: Root_calls.simps chain_mons_def span_with_parent_def Parent_def maxDepth_def)
  moreover have "Root chain_mons (chain_mons 1) = Some 7"
    by code_simp
  moreover have "Finish (NewSpanMonitorFromParent NilMonitor [] heap0)
                   = Inl (NilPointerDereference, ([] :: nat call list))"
    by (simp add: Finish_def forward_def finish_span_def NewSpanMonitorFromParent_def
        make_map_def heap0_def)
  ultimately show ?thesis
    by (simp add: Finish_suppressed Suppress_def calls_of_def)
qed

theorem parent_Record_only_at_Finish_witness:
  "well_formed monitor0 \<and> parent (fst monitor0) \<noteq> NilMonitor
   \<and> OpFinish \<notin> set [OpRecord [''step'' \<mapsto> Atom (1::nat)], OpRoot]
   \<and> (\<exists>h1. calls_of (run no_monitors [OpRecord [''step'' \<mapsto> Atom 1], OpRoot, OpFinish]
                        monitor0)
              = [ParentRecord (RootMonitorPtr (Some 0)) (Some 0) h1])"
proof -
  have p: "parent (fst monitor0) \<noteq> NilMonitor"
    by (simp add: monitor0_facts)
  have x: "OpFinish \<notin> set [OpRecord [''step'' \<mapsto> Atom (1::nat)], OpRoot]"
    by simp
  have "run no_monitors [OpRecord [''step'' \<mapsto> Atom 1], OpRoot] monitor0
          = Inr (Record [''step'' \<mapsto> Atom 1] monitor0, [])"
    by simp
  moreover have "Fields (fst (Record [''step'' \<mapsto> Atom 1] monitor0)) = Some 0"
    by (simp add: monitor0_def heap0_def NewSpanMonitorFromParent_def make_map_def
        Record_Some Fields_def)
  ultimately show ?thesis
    using parent_Record_only_at_Finish [OF well_formed_monitor0 p x, of no_monitors]
      well_formed_monitor0 p
    by (auto simp: monitor0_facts finish_span_def)
qed

section \<open>The scenario of the spec\<close>

text \<open>
  Claim C1. A span monitor \<open>A\<close> is created with the root monitor \<open>R\<close> as parent, in any
  heap; then \<open>UpdateFields {op: fetch}\<close>, \<open>Record {step: start}\<close>, \<open>Record {step: end}\<close>
  and \<open>Finish\<close>. The calls of the whole lifecycle are one call of \<open>Record\<close> on \<open>R\<close>. The
  map passed is \<open>A\<close>'s field map, and in the heap \<open>h1\<close> of the moment of the call it
  holds \<open>op\<close> and, under \<open>A\<close>'s sub-events key \<open>subevents\<close>, the two buffered maps in
  the order recorded, which hold \<open>{op: fetch, step: start}\<close> and
  \<open>{op: fetch, step: end}\<close>.
\<close>

theorem scenario_fetch:
  "\<exists>A h1. run mons
            [OpUpdateFields [''op'' \<mapsto> Atom ''fetch''],
             OpRecord [''step'' \<mapsto> Atom ''start''],
             OpRecord [''step'' \<mapsto> Atom ''end''],
             OpFinish]
            (NewSpanMonitorFromParent (RootMonitorPtr (Some R)) [] h)
          = Inr ((A, h1), [ParentRecord (RootMonitorPtr (Some R)) (Some (next_free h)) h1])
      \<and> Fields A = Some (next_free h)
      \<and> SubeventsField A = ''subevents''
      \<and> cells h1 (next_free h)
          = [''op'' \<mapsto> Atom ''fetch'',
             ''subevents'' \<mapsto> Slice [Suc (next_free h), Suc (Suc (next_free h))]]
      \<and> cells h1 (Suc (next_free h)) = [''op'' \<mapsto> Atom ''fetch'', ''step'' \<mapsto> Atom ''start'']
      \<and> cells h1 (Suc (Suc (next_free h))) = [''op'' \<mapsto> Atom ''fetch'', ''step'' \<mapsto> Atom ''end'']"
  by (simp add: NewSpanMonitorFromParent_def make_map_def UpdateFields_def Record_def
      ensure_fields_def copy_into_def Finish_def forward_def finish_span_def
      FieldEventSubevents_def Fields_def)

section \<open>Finding the root\<close>

lemma ancestor_root_stops:
  "ancestor mons m n = RootMonitorPtr (Some g) \<Longrightarrow> i < n \<Longrightarrow> is_span (ancestor mons m i)"
proof (induction n arbitrary: m i)
  case 0
  then show ?case by simp
next
  case (Suc n)
  from Suc.prems(1) obtain p where m: "m = SpanMonitorPtr (Some p)"
    and a: "ancestor mons (Parent (mons p)) n = RootMonitorPtr (Some g)"
    by (auto split: Monitor.splits option.splits)
  show ?case
  proof (cases i)
    case 0
    with m show ?thesis by simp
  next
    case (Suc j)
    with Suc.prems(2) have "j < n" by simp
    from Suc.IH [OF a this] m Suc show ?thesis by simp
  qed
qed

lemma ancestor_not_span:
  "\<not> is_span m \<Longrightarrow>
     ancestor mons m n = RootMonitorPtr (Some g) \<longleftrightarrow> n = 0 \<and> m = RootMonitorPtr (Some g)"
  by (cases n; cases m rule: is_span.cases) auto

lemma Root_loop_Some:
  "Root_loop mons m d = Some g \<longleftrightarrow>
     (\<exists>n. d + n < maxDepth \<and> ancestor mons m n = RootMonitorPtr (Some g))"
proof (induction mons m d rule: Root_loop.induct)
  case (1 mons monitor depth)
  show ?case
  proof (cases "is_span monitor \<and> Suc depth \<le> maxDepth")
    case True
    then obtain p where m: "monitor = SpanMonitorPtr (Some p)"
      by (cases monitor rule: is_span.cases) auto
    from True m have
      "Root_loop mons monitor depth = Root_loop mons (Parent (mons p)) (Suc depth)"
      by (subst Root_loop.simps) simp
    also have "\<dots> = Some g \<longleftrightarrow>
        (\<exists>n. Suc depth + n < maxDepth
           \<and> ancestor mons (Parent (mons p)) n = RootMonitorPtr (Some g))"
      using True m by (intro "1.IH") auto
    also have "\<dots> \<longleftrightarrow>
        (\<exists>n. depth + n < maxDepth \<and> ancestor mons monitor n = RootMonitorPtr (Some g))"
    proof
      assume "\<exists>n. Suc depth + n < maxDepth
                \<and> ancestor mons (Parent (mons p)) n = RootMonitorPtr (Some g)"
      then obtain n where "Suc depth + n < maxDepth"
        "ancestor mons (Parent (mons p)) n = RootMonitorPtr (Some g)"
        by blast
      with m have "depth + Suc n < maxDepth
                     \<and> ancestor mons monitor (Suc n) = RootMonitorPtr (Some g)"
        by simp
      then show "\<exists>n. depth + n < maxDepth \<and> ancestor mons monitor n = RootMonitorPtr (Some g)"
        by blast
    next
      assume "\<exists>n. depth + n < maxDepth \<and> ancestor mons monitor n = RootMonitorPtr (Some g)"
      then obtain n where n: "depth + n < maxDepth"
        "ancestor mons monitor n = RootMonitorPtr (Some g)"
        by blast
      with m obtain k where "n = Suc k"
        by (cases n) auto
      with n m show "\<exists>n. Suc depth + n < maxDepth
                       \<and> ancestor mons (Parent (mons p)) n = RootMonitorPtr (Some g)"
        by auto
    qed
    finally show ?thesis .
  next
    case False
    show ?thesis
    proof (cases "Suc depth \<le> maxDepth")
      case True
      with False have ns: "\<not> is_span monitor" by simp
      from True ns show ?thesis
        by (subst Root_loop.simps)
           (auto simp: ancestor_not_span split: Monitor.splits option.splits)
    next
      case False
      then show ?thesis
        by (subst Root_loop.simps) auto
    qed
  qed
qed

lemma Root_Some:
  "Root mons sm = Some g \<longleftrightarrow>
     (\<exists>n<maxDepth. ancestor mons (Parent sm) n = RootMonitorPtr (Some g))"
  by (simp add: Root_def Root_loop_Some)

lemma ancestor_not_root:
  assumes "\<not> is_span (ancestor mons m n)" "\<not> is_root (ancestor mons m n)"
    and "\<forall>i<n. is_span (ancestor mons m i)"
  shows "ancestor mons m k \<noteq> RootMonitorPtr (Some g)"
proof
  assume r: "ancestor mons m k = RootMonitorPtr (Some g)"
  show False
  proof (cases "k < n")
    case True
    with assms(3) r show ?thesis by auto
  next
    case False
    show ?thesis
    proof (cases "k = n")
      case True
      with r assms(2) show ?thesis by simp
    next
      case False
      with \<open>\<not> k < n\<close> have "n < k" by simp
      from ancestor_root_stops [OF r this] assms(1) show ?thesis by simp
    qed
  qed
qed

text \<open>
  The bound at work: a root exactly one hundred parent links away is found, one a
  hundred and one links away is not, and neither is any in a chain that loops.
\<close>

lemma Root_hundred_links: "Root chain_mons (chain_mons 99) = Some 7"
  by code_simp

lemma Root_beyond_bound: "Root chain_mons (chain_mons 100) = None"
  by code_simp

lemma Root_cycle: "Root loop_mons (loop_mons 0) = None"
  by code_simp

text \<open>
  Claim C5. \<open>ancestor mons (Parent sm) n\<close> is the monitor \<open>n + 1\<close> parent links above
  \<open>sm\<close>. \<open>Root\<close> returns a root monitor exactly if that root is on the chain at most
  one hundred links above the monitor; everything on the chain before a root is a span
  monitor, so that root is the nearest (and only) one. \<open>Root\<close> returns none when the
  chain, after span monitors only, comes to something that is neither a span monitor
  nor a root monitor, and when none of the first hundred monitors on the chain is a
  root monitor, as in a cycle of span monitors.
\<close>

theorem Root_nearest_within_bound:
  "(Root mons sm = Some g \<longleftrightarrow>
      (\<exists>n<100. ancestor mons (Parent sm) n = RootMonitorPtr (Some g)))
   \<and> (ancestor mons (Parent sm) n = RootMonitorPtr (Some g) \<longrightarrow>
        (\<forall>i<n. is_span (ancestor mons (Parent sm) i)))
   \<and> (\<not> is_span (ancestor mons (Parent sm) n) \<and> \<not> is_root (ancestor mons (Parent sm) n)
        \<and> (\<forall>i<n. is_span (ancestor mons (Parent sm) i)) \<longrightarrow> Root mons sm = None)
   \<and> ((\<forall>i<100. \<not> is_root (ancestor mons (Parent sm) i)) \<longrightarrow> Root mons sm = None)"
proof (intro conjI impI allI)
  show "Root mons sm = Some g \<longleftrightarrow>
      (\<exists>n<100. ancestor mons (Parent sm) n = RootMonitorPtr (Some g))"
    using Root_Some [of mons sm g] by (simp add: maxDepth_def)
next
  fix i
  assume "ancestor mons (Parent sm) n = RootMonitorPtr (Some g)" "i < n"
  then show "is_span (ancestor mons (Parent sm) i)"
    by (rule ancestor_root_stops)
next
  assume a: "\<not> is_span (ancestor mons (Parent sm) n) \<and> \<not> is_root (ancestor mons (Parent sm) n)
        \<and> (\<forall>i<n. is_span (ancestor mons (Parent sm) i))"
  have "Root mons sm \<noteq> Some g'" for g'
    using a ancestor_not_root [of mons "Parent sm" n _ g'] by (auto simp: Root_Some)
  then show "Root mons sm = None"
    by (cases "Root mons sm") auto
next
  assume a: "\<forall>i<100. \<not> is_root (ancestor mons (Parent sm) i)"
  have "Root mons sm \<noteq> Some g'" for g'
  proof
    assume "Root mons sm = Some g'"
    then obtain k where "k < 100" "ancestor mons (Parent sm) k = RootMonitorPtr (Some g')"
      by (auto simp: Root_Some maxDepth_def)
    with a show False by auto
  qed
  then show "Root mons sm = None"
    by (cases "Root mons sm") auto
qed

theorem Root_nearest_within_bound_witness:
  "ancestor chain_mons (Parent (chain_mons 2)) 2 = RootMonitorPtr (Some 7)
   \<and> Root chain_mons (chain_mons 2) = Some 7
   \<and> is_span (ancestor chain_mons (Parent (chain_mons 2)) 1)
   \<and> \<not> is_span (ancestor chain_mons (Parent (span_with_parent (OtherMonitor 3))) 0)
   \<and> \<not> is_root (ancestor chain_mons (Parent (span_with_parent (OtherMonitor 3))) 0)
   \<and> Root chain_mons (span_with_parent (OtherMonitor 3)) = None"
proof -
  have a: "ancestor chain_mons (Parent (chain_mons 2)) 2 = RootMonitorPtr (Some 7)"
    by (simp add: chain_mons_def span_with_parent_def Parent_def numeral_2_eq_2)
  then have "\<exists>n<100. ancestor chain_mons (Parent (chain_mons 2)) n = RootMonitorPtr (Some 7)"
    by (intro exI [of _ 2]) simp
  with Root_nearest_within_bound [of chain_mons "chain_mons 2" 7 2]
  have r: "Root chain_mons (chain_mons 2) = Some 7"
    by blast
  from a Root_nearest_within_bound [of chain_mons "chain_mons 2" 7 2]
  have "\<forall>i<2. is_span (ancestor chain_mons (Parent (chain_mons 2)) i)"
    by blast
  then have "1 < (2::nat) \<longrightarrow> is_span (ancestor chain_mons (Parent (chain_mons 2)) 1)"
    by (rule spec)
  then have s: "is_span (ancestor chain_mons (Parent (chain_mons 2)) 1)"
    by simp
  have o: "\<not> is_span (ancestor chain_mons (Parent (span_with_parent (OtherMonitor 3))) 0)"
          "\<not> is_root (ancestor chain_mons (Parent (span_with_parent (OtherMonitor 3))) 0)"
    by (simp_all add: span_with_parent_def Parent_def)
  with Root_nearest_within_bound [of chain_mons "span_with_parent (OtherMonitor 3)" _ 0]
  have n: "Root chain_mons (span_with_parent (OtherMonitor 3)) = None"
    by simp
  from a r s o n show ?thesis
    by simp
qed

end
